theory Spec2Isabelle
  imports Main "HOL-Library.Multiset"
begin

section \<open>JavaScript values\<close>

text \<open>
  The values that reach \<^verbatim>\<open>TCPFailoverProxy.js\<close> through its options. A number is an
  integer or NaN (\<open>None\<close>). JavaScript's numbers are doubles: \<open>JNum (Some n)\<close> stands for
  a JavaScript number when \<open>n\<close> is a double, with \<open>2^1024\<close> and \<open>- 2^1024\<close> standing for
  the two infinities; fractions are not modelled. A string is a list of code units below
  256.
\<close>

type_synonym jsnum = "int option"

datatype jsval = JUndefined | JNull | JBool bool | JNum jsnum | JStr string

text \<open>Truthiness, as \<^verbatim>\<open>||\<close>, \<^verbatim>\<open>?:\<close> and \<^verbatim>\<open>if\<close> test it.\<close>

fun truthy :: "jsval \<Rightarrow> bool" where
  "truthy JUndefined = False"
| "truthy JNull = False"
| "truthy (JBool b) = b"
| "truthy (JNum None) = False"
| "truthy (JNum (Some n)) = (n \<noteq> 0)"
| "truthy (JStr s) = (s \<noteq> [])"

text \<open>\<^verbatim>\<open>v == null\<close> holds of \<^verbatim>\<open>null\<close> and \<^verbatim>\<open>undefined\<close> only.\<close>

fun nullish :: "jsval \<Rightarrow> bool" where
  "nullish JUndefined = True"
| "nullish JNull = True"
| "nullish _ = False"

text \<open>Reading \<^verbatim>\<open>xs[i]\<close>: past the end the value is \<^verbatim>\<open>undefined\<close>.\<close>

definition js_index :: "'a list \<Rightarrow> nat \<Rightarrow> 'a option" where
  "js_index xs i = (if i < length xs then Some (xs ! i) else None)"

subsection \<open>\<^verbatim>\<open>parseInt\<close> with no radix argument\<close>

definition isWhiteSpace :: "char \<Rightarrow> bool" where
  "isWhiteSpace c =
     (let k = (of_char c :: nat)
      in k = 9 \<or> k = 10 \<or> k = 11 \<or> k = 12 \<or> k = 13 \<or> k = 32 \<or> k = 160)"

definition digitValue :: "char \<Rightarrow> nat option" where
  "digitValue c =
     (let k = (of_char c :: nat)
      in if 48 \<le> k \<and> k \<le> 57 then Some (k - 48)
         else if 97 \<le> k \<and> k \<le> 122 then Some (k - 87)
         else if 65 \<le> k \<and> k \<le> 90 then Some (k - 55)
         else None)"

definition isRadixDigit :: "nat \<Rightarrow> char \<Rightarrow> bool" where
  "isRadixDigit R c = (case digitValue c of None \<Rightarrow> False | Some d \<Rightarrow> d < R)"

definition digitsValue :: "nat \<Rightarrow> string \<Rightarrow> nat" where
  "digitsValue R Z =
     foldl (\<lambda>acc c. acc * R + (case digitValue c of None \<Rightarrow> 0 | Some d \<Rightarrow> d)) 0 Z"

text \<open>
  The number of a numeral is the double nearest to it, ties going to the even mantissa
  of 53 bits; past the largest double it is Infinity.
\<close>

function bitLength :: "nat \<Rightarrow> nat" where
  "bitLength n = (if n = 0 then 0 else 1 + bitLength (n div 2))"
  by pat_completeness auto
termination
  by (relation "measure id") auto

definition toDouble :: "nat \<Rightarrow> nat" where
  "toDouble n =
     (if n < 2 ^ 53 then n
      else
        (let e = bitLength n - 53;
             q = n div 2 ^ e;
             r = n mod 2 ^ e;
             h = 2 ^ (e - 1);
             m = (if r > h \<or> (r = h \<and> odd q) then q + 1 else q)
         in min (m * 2 ^ e) (2 ^ 1024)))"

text \<open>
  The steps of the language definition: leading white space is dropped, a sign is read,
  a \<^verbatim>\<open>0x\<close> prefix switches to radix 16, the longest run of digits is the numeral and an
  empty run is NaN. Characters after the run are ignored.
\<close>

definition parseInt_str :: "string \<Rightarrow> jsnum" where
  "parseInt_str inputString =
     (let S = dropWhile isWhiteSpace inputString;
          sign = (if take 1 S = ''-'' then - 1 else (1::int));
          S = (if take 1 S = ''+'' \<or> take 1 S = ''-'' then drop 1 S else S);
          hex = (take 2 S = ''0x'' \<or> take 2 S = ''0X'');
          R = (if hex then 16 else 10);
          S = (if hex then drop 2 S else S);
          Z = takeWhile (isRadixDigit R) S
      in if Z = [] then None else Some (sign * int (toDouble (digitsValue R Z))))"

function leadingDigit :: "nat \<Rightarrow> nat" where
  "leadingDigit n = (if n < 10 then n else leadingDigit (n div 10))"
  by pat_completeness auto
termination
  by (relation "measure id") auto

text \<open>
  The greatest integer that rounds to the double \<open>d\<close>, for \<open>d\<close> from \<open>2^53\<close> on: half a
  step above \<open>d\<close> when the mantissa of \<open>d\<close> is even, one less when it is odd.
\<close>

definition greatestRoundingTo :: "nat \<Rightarrow> nat" where
  "greatestRoundingTo d =
     (let e = bitLength d - 53;
          q = d div 2 ^ e;
          h = 2 ^ (e - 1)
      in if even q then d + h else d + h - 1)"

text \<open>
  \<^verbatim>\<open>parseInt(v)\<close> first turns \<open>v\<close> into a string. An integer below \<open>10^21\<close> in magnitude
  prints as a decimal numeral that reads back as the same double. From \<open>10^21\<close> on a
  number prints in exponent notation (\<^verbatim>\<open>1.5e+21\<close>), with the shortest run of digits that
  reads back as the same double, and \<^verbatim>\<open>parseInt\<close> stops after the first digit. A shorter
  numeral has another first digit than the double only when a one-digit numeral rounds
  to the double, so the digit is the leading digit of the greatest integer that rounds
  to it. Infinity prints as \<^verbatim>\<open>Infinity\<close>, which has no digit.
\<close>

definition parseInt :: "jsval \<Rightarrow> jsnum" where
  "parseInt v =
     (case v of
        JStr s \<Rightarrow> parseInt_str s
      | JNum None \<Rightarrow> parseInt_str ''NaN''
      | JNum (Some n) \<Rightarrow>
          (if \<bar>n\<bar> < 10 ^ 21 then Some n
           else if \<bar>n\<bar> \<ge> 2 ^ 1024 then parseInt_str ''Infinity''
           else Some (sgn n * int (leadingDigit (greatestRoundingTo (nat \<bar>n\<bar>)))))
      | JUndefined \<Rightarrow> parseInt_str ''undefined''
      | JNull \<Rightarrow> parseInt_str ''null''
      | JBool b \<Rightarrow> parseInt_str (if b then ''true'' else ''false''))"

subsection \<open>\<^verbatim>\<open>String.prototype.split\<close> on a one-character separator\<close>

fun split :: "char \<Rightarrow> string \<Rightarrow> string list" where
  "split sep [] = [[]]"
| "split sep (c # cs) =
     (if c = sep then [] # split sep cs
      else (case split sep cs of [] \<Rightarrow> [[c]] | f # fs \<Rightarrow> (c # f) # fs))"

section \<open>Utility functions\<close>

text \<open>
  What the module throws. The source throws message strings; the values interpolated
  into a message are the constructor's arguments.
\<close>

datatype error =
    UnknownBackendType jsval
  | MissingHost
  | InvalidBackendPort jsval jsnum
  | MissingBackendArray
  | InvalidServerPort jsnum
  | TypeError
  | ReferenceError string
  | UnableToConnect nat

text \<open>\<^verbatim>\<open>isValidPort(port)\<close>: \<^verbatim>\<open>port > 0 && port <= 65535\<close>; both are false of NaN.\<close>

definition isValidPort :: "jsnum \<Rightarrow> bool" where
  "isValidPort port = (case port of None \<Rightarrow> False | Some n \<Rightarrow> n > 0 \<and> n \<le> 65535)"

text \<open>
  A backend setting is a primitive value (the string \<^verbatim>\<open>"host:port"\<close> in the documented
  use) or an object, of which the code reads the properties \<^verbatim>\<open>host\<close> and \<^verbatim>\<open>port\<close>; a
  property the object does not have reads as \<^verbatim>\<open>undefined\<close>.
\<close>

datatype spec = Prim jsval | Obj jsval jsval

text \<open>
  The normalized object. Its \<^verbatim>\<open>_fullString\<close> is \<^verbatim>\<open>host + ":" + port\<close> and is read by
  the log lines and the error message only; the model leaves it and the logging out.
\<close>

record backend =
  host :: jsval
  port :: int

text \<open>Lines 40 to 46: a string is split at the colons into an object.\<close>

definition fromString :: "spec \<Rightarrow> spec" where
  "fromString backend =
     (case backend of
        Prim (JStr s) \<Rightarrow>
          (let split = split CHR '':'' s
           in Obj (case js_index split 0 of None \<Rightarrow> JUndefined | Some f \<Rightarrow> JStr f)
                  (JNum (parseInt (case js_index split 1 of None \<Rightarrow> JUndefined
                                   | Some f \<Rightarrow> JStr f))))
      | _ \<Rightarrow> backend)"

text \<open>
  Lines 49 to 58: anything whose \<^verbatim>\<open>typeof\<close> is not \<^verbatim>\<open>"object"\<close> is refused; the clone
  takes \<^verbatim>\<open>""\<close> for a host that is \<^verbatim>\<open>null\<close> or \<^verbatim>\<open>undefined\<close> and \<^verbatim>\<open>parseInt\<close> of the port.
  \<^verbatim>\<open>typeof null\<close> is \<^verbatim>\<open>"object"\<close>, and reading \<^verbatim>\<open>null.host\<close> raises a TypeError.
\<close>

definition clone :: "spec \<Rightarrow> error + jsval \<times> jsnum" where
  "clone backend =
     (case backend of
        Prim JNull \<Rightarrow> Inl TypeError
      | Prim v \<Rightarrow> Inl (UnknownBackendType v)
      | Obj h p \<Rightarrow> Inr (if nullish h then JStr [] else h, parseInt p))"

text \<open>The host and port that the checks of lines 64 to 69 look at.\<close>

definition coerced :: "spec \<Rightarrow> error + jsval \<times> jsnum" where
  "coerced backend = clone (fromString backend)"

text \<open>
  \<^verbatim>\<open>host.length <= 0\<close>: a string has a length; a boolean or a number has none, and
  \<^verbatim>\<open>undefined <= 0\<close> is false.
\<close>

definition lengthLE0 :: "jsval \<Rightarrow> bool" where
  "lengthLE0 v = (case v of JStr s \<Rightarrow> length s \<le> 0 | _ \<Rightarrow> False)"

definition normalizeBackendHostObject :: "spec \<Rightarrow> error + backend" where
  "normalizeBackendHostObject backend =
     (case coerced backend of
        Inl e \<Rightarrow> Inl e
      | Inr (h, p) \<Rightarrow>
          if lengthLE0 h then Inl MissingHost
          else if \<not> isValidPort p then Inl (InvalidBackendPort h p)
          else (case p of None \<Rightarrow> Inl (InvalidBackendPort h p)
                | Some n \<Rightarrow> Inr \<lparr>host = h, port = n\<rparr>))"

text \<open>
  The argument of \<^verbatim>\<open>normalizeBackendHostObjectArray\<close>: one setting or an array of them.
\<close>

datatype backend_arg = One spec | Many "spec list"

text \<open>\<^verbatim>\<open>backendArr == null || backendArr.length <= 0\<close>\<close>

definition missingOrEmpty :: "backend_arg \<Rightarrow> bool" where
  "missingOrEmpty backendArr =
     (case backendArr of
        Many xs \<Rightarrow> length xs \<le> 0
      | One (Prim v) \<Rightarrow> nullish v \<or> lengthLE0 v
      | One (Obj h p) \<Rightarrow> False)"

text \<open>
  \<^verbatim>\<open>ret[i] = v\<close> on a JavaScript array: an index past the end extends the array, and the
  places in between are holes (\<open>None\<close>).
\<close>

definition array_set :: "'a option list \<Rightarrow> nat \<Rightarrow> 'a \<Rightarrow> 'a option list" where
  "array_set ret i v =
     (if i < length ret then ret[i := Some v]
      else ret @ replicate (i - length ret) None @ [Some v])"

text \<open>The loop of lines 96 to 98, which runs from the last index down to 0.\<close>

function normalizeLoop :: "spec list \<Rightarrow> int \<Rightarrow> backend option list \<Rightarrow> error + backend option list" where
  "normalizeLoop backendArr i ret =
     (if i \<ge> 0 then
        (case normalizeBackendHostObject
                (case js_index backendArr (nat i) of None \<Rightarrow> Prim JUndefined | Some x \<Rightarrow> x) of
           Inl e \<Rightarrow> Inl e
         | Inr b \<Rightarrow> normalizeLoop backendArr (i - 1) (array_set ret (nat i) b))
      else Inr ret)"
  by pat_completeness auto
termination
  by (relation "measure (\<lambda>(backendArr, i, ret). nat (i + 1))") auto

function normalizeBackendHostObjectArray :: "backend_arg \<Rightarrow> error + backend option list" where
  "normalizeBackendHostObjectArray backendArr =
     (if missingOrEmpty backendArr then Inl MissingBackendArray
      else (case backendArr of
              One s \<Rightarrow> normalizeBackendHostObjectArray (Many [s])
            | Many xs \<Rightarrow> normalizeLoop xs (int (length xs) - 1) []))"
  by pat_completeness auto
termination
  by (relation "measure (\<lambda>a. case a of One _ \<Rightarrow> 1 | Many _ \<Rightarrow> 0)") auto

section \<open>The proxy and the heap it lives in\<close>

text \<open>
  Backend objects and arrays are heap objects: \<^verbatim>\<open>indexOf\<close> compares object references,
  and \<^verbatim>\<open>slice\<close> and \<^verbatim>\<open>concat\<close> make new arrays. A reference is an address. The backend
  objects are never written after normalization, so \<open>objs\<close> gives each address its
  object; the arrays are the list \<open>arrs\<close>, an array's address is its index there, and a
  new array is appended. An array of backends holds references, \<open>None\<close> for a hole.
  The other fields are those of \<^verbatim>\<open>this\<close>. \<open>listening\<close> is the state of the
  \<^verbatim>\<open>net.Server\<close> that \<^verbatim>\<open>_serverSetup\<close> creates, \<open>p_server\<close> whether \<^verbatim>\<open>this._server\<close>
  holds it.
\<close>

type_synonym ref = nat
type_synonym aref = nat
type_synonym jsarray = "ref option list"

record state =
  objs :: "ref \<Rightarrow> backend"
  next_ref :: ref
  arrs :: "jsarray list"
  p_host :: jsval
  p_port :: jsnum
  p_backendList :: aref
  p_log :: bool
  p_shuffle :: bool
  p_connectTimeout :: jsval
  p_server :: bool
  listening :: bool

definition array_at :: "state \<Rightarrow> aref \<Rightarrow> jsarray option" where
  "array_at w a = (if a < length (arrs w) then Some (arrs w ! a) else None)"

definition alloc_arr :: "state \<Rightarrow> jsarray \<Rightarrow> state \<times> aref" where
  "alloc_arr w xs = (w\<lparr>arrs := arrs w @ [xs]\<rparr>, length (arrs w))"

text \<open>Each object literal of the normalization is a new object.\<close>

fun alloc_objs :: "state \<Rightarrow> backend option list \<Rightarrow> state \<times> jsarray" where
  "alloc_objs w [] = (w, [])"
| "alloc_objs w (None # bs) = (let (w', rs) = alloc_objs w bs in (w', None # rs))"
| "alloc_objs w (Some b # bs) =
     (let r = next_ref w;
          (w', rs) = alloc_objs (w\<lparr>objs := (objs w)(r := b), next_ref := r + 1\<rparr>) bs
      in (w', Some r # rs))"

text \<open>
  \<^verbatim>\<open>Array.prototype.slice(start, end)\<close>: a negative index counts from the end, and both
  are clamped to the array.
\<close>

definition js_slice :: "'a list \<Rightarrow> int \<Rightarrow> int \<Rightarrow> 'a list" where
  "js_slice xs start end =
     (let len = int (length xs);
          k = (if start < 0 then max (len + start) 0 else min start len);
          final = (if end < 0 then max (len + end) 0 else min end len)
      in take (nat (final - k)) (drop (nat k) xs))"

text \<open>
  \<^verbatim>\<open>Array.prototype.indexOf\<close>: the first index whose element is strictly equal to the
  target, which for objects means the same object; \<open>-1\<close> when there is none.
\<close>

fun indexOf :: "jsarray \<Rightarrow> ref \<Rightarrow> int" where
  "indexOf [] t = - 1"
| "indexOf (x # xs) t =
     (if x = Some t then 0 else (let k = indexOf xs t in if k < 0 then - 1 else k + 1))"

subsection \<open>Options\<close>

record opt =
  opt_port :: jsnum
  opt_host :: jsval
  opt_backend :: backend_arg
  opt_log :: jsval
  opt_shuffle :: jsval
  opt_connectTimeout :: jsval

text \<open>
  \<^verbatim>\<open>_processOptObject(opt)\<close>. The port is a number, as the documentation of
  \<^verbatim>\<open>isValidPort\<close> types it. A throw leaves \<^verbatim>\<open>this\<close> as it was.
\<close>

definition processOptObject :: "state \<Rightarrow> opt \<Rightarrow> error + state" where
  "processOptObject this opt =
     (let port = opt_port opt
      in if \<not> isValidPort port then Inl (InvalidServerPort port)
         else
           (let host = (if truthy (opt_host opt) then opt_host opt else JNull)
            in case normalizeBackendHostObjectArray (opt_backend opt) of
                 Inl e \<Rightarrow> Inl e
               | Inr backendList \<Rightarrow>
                   (let log = (opt_log opt = JNull \<or> opt_log opt = JUndefined \<or> truthy (opt_log opt));
                        shuffle = truthy (opt_shuffle opt);
                        connectTimeout = (if truthy (opt_connectTimeout opt)
                                          then opt_connectTimeout opt else JNum (Some 2500));
                        (this1, refs) = alloc_objs this backendList;
                        (this2, arr) = alloc_arr this1 refs
                    in Inr (this2\<lparr>p_host := host, p_port := port, p_backendList := arr,
                                  p_log := log, p_shuffle := shuffle,
                                  p_connectTimeout := connectTimeout\<rparr>))))"

subsection \<open>Server setup and close\<close>

definition serverSetup :: "state \<Rightarrow> state" where
  "serverSetup this = this\<lparr>listening := True, p_server := True\<rparr>"

text \<open>
  \<^verbatim>\<open>close()\<close> declares no parameter, and no \<^verbatim>\<open>callback\<close> is declared in the module, so
  the identifier \<^verbatim>\<open>callback\<close> of its body is looked up in the global object: \<open>globals\<close>
  gives the properties of that object, a function or another value, and reading an
  identifier that is not there raises a ReferenceError. The arguments of
  \<^verbatim>\<open>this._server.close( callback )\<close> are evaluated before the call is made;
  \<^verbatim>\<open>net.Server.close\<close> stops the listening and registers its argument only when it is a
  function. In the other branch \<^verbatim>\<open>callback()\<close> is a call: of a value that is not a
  function it raises a TypeError, and what a global function does when called is not
  modelled.
\<close>

datatype global = Function | Value jsval

fun truthyGlobal :: "global \<Rightarrow> bool" where
  "truthyGlobal Function = True"
| "truthyGlobal (Value v) = truthy v"

definition close :: "(string \<Rightarrow> global option) \<Rightarrow> state \<Rightarrow> error + state" where
  "close globals this =
     (if p_server this then
        (case globals ''callback'' of
           None \<Rightarrow> Inl (ReferenceError ''callback'')
         | Some callback \<Rightarrow> Inr (this\<lparr>listening := False, p_server := False\<rparr>))
      else
        (case globals ''callback'' of
           None \<Rightarrow> Inl (ReferenceError ''callback'')
         | Some callback \<Rightarrow>
             if truthyGlobal callback then
               (case callback of Function \<Rightarrow> Inr this | Value v \<Rightarrow> Inl TypeError)
             else Inr this))"

subsection \<open>Rotation\<close>

text \<open>
  \<^verbatim>\<open>_rotateBackendList(targetHost)\<close>: the two slices and their concatenation are three
  new arrays, and \<^verbatim>\<open>this._backendList\<close> is set to the last.
\<close>

definition rotateBackendList :: "state \<Rightarrow> ref \<Rightarrow> state" where
  "rotateBackendList this targetHost =
     (case array_at this (p_backendList this) of
        None \<Rightarrow> this
      | Some list \<Rightarrow>
          (let targetIdx = indexOf list targetHost
           in if targetIdx \<le> 0 then this
              else
                (let failedArr = js_slice list 0 targetIdx;
                     targetArr = js_slice list targetIdx (int (length list));
                     (this1, a1) = alloc_arr this failedArr;
                     (this2, a2) = alloc_arr this1 targetArr;
                     (this3, a3) = alloc_arr this2 (targetArr @ failedArr)
                 in this3\<lparr>p_backendList := a3\<rparr>)))"

text \<open>The list the proxy holds at the moment.\<close>

definition currentList :: "state \<Rightarrow> jsarray" where
  "currentList this = (case array_at this (p_backendList this) of None \<Rightarrow> [] | Some list \<Rightarrow> list)"

section \<open>Scanning for a backend\<close>

text \<open>
  The socket that \<^verbatim>\<open>netSocketConnect\<close> hands to its callback, with the \<^verbatim>\<open>_backend\<close> tag
  that the scan puts on it.
\<close>

record socket =
  sock_id :: nat
  sock_backend :: "ref option"

text \<open>
  The variables of one call of \<^verbatim>\<open>scanAndConnectToValidBackend\<close>, which its closures
  share: \<open>callback\<close> tells whether the variable still holds the caller's function.
  \<open>attempts\<close> lists the backends given to \<^verbatim>\<open>netSocketConnect\<close> and \<open>delivered\<close> the
  calls of the caller's function, both in the order they were made.
\<close>

record scan =
  scanList :: aref
  scanPos :: nat
  callback :: bool
  attempts :: "ref list"
  delivered :: "(socket option \<times> error option) list"

definition triggerCallback :: "scan \<Rightarrow> socket option \<Rightarrow> error option \<Rightarrow> scan" where
  "triggerCallback s sock err =
     (if callback s then s\<lparr>delivered := delivered s @ [(sock, err)], callback := False\<rparr>
      else s\<lparr>callback := False\<rparr>)"

text \<open>
  \<^verbatim>\<open>netSocketConnect(port, host, cb, timeout)\<close> is not part of the module. It answers
  each call once, with a socket or an error: \<open>connect i port host timeout\<close> is its answer
  to the attempt on the candidate at index \<open>i\<close> of the scan list.
\<close>

type_synonym connector = "nat \<Rightarrow> int \<Rightarrow> jsval \<Rightarrow> jsval \<Rightarrow> nat option \<times> string option"

text \<open>
  While a connection attempt is pending the event loop runs other connections'
  callbacks, which may rotate the proxy's list: \<open>sched i\<close> lists the targets of the
  rotations that run while the attempt on index \<open>i\<close> is pending.
\<close>

definition rotations :: "state \<Rightarrow> ref list \<Rightarrow> state" where
  "rotations w ts = foldl rotateBackendList w ts"

function recursiveScan ::
  "connector \<Rightarrow> jsval \<Rightarrow> (nat \<Rightarrow> ref list) \<Rightarrow> state \<Rightarrow> scan \<Rightarrow> state \<times> scan" where
  "recursiveScan connect connectTimeout sched w s =
     (case array_at w (scanList s) of
        None \<Rightarrow> (w, s)
      | Some list \<Rightarrow>
          if scanPos s > length list then
            (w, triggerCallback s None (Some (UnableToConnect (scanPos s))))
          else
            (let pos = scanPos s;
                 backend = (case js_index list pos of None \<Rightarrow> None | Some x \<Rightarrow> x);
                 s1 = s\<lparr>scanPos := pos + 1\<rparr>
             in case backend of
                  None \<Rightarrow> recursiveScan connect connectTimeout sched w s1
                | Some b \<Rightarrow>
                    (let s2 = s1\<lparr>attempts := attempts s1 @ [b]\<rparr>;
                         w' = rotations w (sched pos)
                     in case connect pos (port (objs w b)) (host (objs w b)) connectTimeout of
                          (Some sk, None) \<Rightarrow>
                            (w', triggerCallback s2
                                   (Some \<lparr>sock_id = sk, sock_backend = Some b\<rparr>) None)
                        | _ \<Rightarrow> recursiveScan connect connectTimeout sched w' s2)))"
  by pat_completeness auto
termination
proof -
  have frame1: "array_at (rotateBackendList w t) a = array_at w a \<and>
      length (arrs w) \<le> length (arrs (rotateBackendList w t))"
    if "a < length (arrs w)" for w t a
    using that
    by (auto simp: rotateBackendList_def array_at_def alloc_arr_def Let_def nth_append
        split: option.splits)
  have frame: "array_at (foldl rotateBackendList w ts) a = array_at w a"
    if "a < length (arrs w)" for ts w a
    using that
  proof (induction ts arbitrary: w)
    case Nil
    then show ?case by simp
  next
    case (Cons t ts)
    from frame1 [OF Cons.prems, of t] Cons.prems
    have "a < length (arrs (rotateBackendList w t))" by simp
    from Cons.IH [OF this] frame1 [OF Cons.prems, of t] show ?case by simp
  qed
  have valid: "a < length (arrs w)" if "array_at w a = Some list" for w a list
    using that by (simp add: array_at_def split: if_splits)
  show ?thesis
    apply (relation "measure (\<lambda>(connect, connectTimeout, sched, w, s).
          case array_at w (scanList s) of None \<Rightarrow> 0 | Some list \<Rightarrow> length list + 1 - scanPos s)")
    apply (auto simp: rotations_def frame valid)
    done
qed

text \<open>The default of the parameter: \<^verbatim>\<open>connectTimeout = 5000\<close> when the argument is undefined.\<close>

definition defaultTimeout :: "jsval \<Rightarrow> jsval" where
  "defaultTimeout connectTimeout =
     (if connectTimeout = JUndefined then JNum (Some 5000) else connectTimeout)"

text \<open>
  \<^verbatim>\<open>scanAndConnectToValidBackend(backendArr, callback, connectTimeout)\<close>: \<open>cb\<close> tells whether
  the caller passed a function. \<^verbatim>\<open>backendArr.slice(0)\<close> is a new array.
\<close>

definition scanAndConnectToValidBackend ::
  "connector \<Rightarrow> (nat \<Rightarrow> ref list) \<Rightarrow> state \<Rightarrow> aref \<Rightarrow> bool \<Rightarrow> jsval \<Rightarrow> state \<times> scan" where
  "scanAndConnectToValidBackend connect sched w backendArr cb connectTimeout =
     (let s0 = \<lparr>scanList = backendArr, scanPos = 0, callback = cb, attempts = [],
                delivered = []\<rparr>
      in case array_at w backendArr of
           None \<Rightarrow> (w, s0)
         | Some list \<Rightarrow>
             (let (w1, a) = alloc_arr w (js_slice list 0 (int (length list)))
              in recursiveScan connect (defaultTimeout connectTimeout) sched w1
                   (s0\<lparr>scanList := a\<rparr>)))"

text \<open>The test of line 141: \<^verbatim>\<open>socket != null && err == null\<close>.\<close>

definition connected :: "nat option \<times> string option \<Rightarrow> bool" where
  "connected r = (fst r \<noteq> None \<and> snd r = None)"

text \<open>
  The scan as a function of the scan list alone: the same steps as \<open>recursiveScan\<close>, on
  the list that the scan's array held when the scan began.
\<close>

function scanFrom :: "connector \<Rightarrow> jsval \<Rightarrow> (ref \<Rightarrow> backend) \<Rightarrow> jsarray \<Rightarrow> scan \<Rightarrow> scan" where
  "scanFrom connect connectTimeout ob list s =
     (if scanPos s > length list then
        triggerCallback s None (Some (UnableToConnect (scanPos s)))
      else
        (let pos = scanPos s;
             backend = (case js_index list pos of None \<Rightarrow> None | Some x \<Rightarrow> x);
             s1 = s\<lparr>scanPos := pos + 1\<rparr>
         in case backend of
              None \<Rightarrow> scanFrom connect connectTimeout ob list s1
            | Some b \<Rightarrow>
                (let s2 = s1\<lparr>attempts := attempts s1 @ [b]\<rparr>
                 in case connect pos (port (ob b)) (host (ob b)) connectTimeout of
                      (Some sk, None) \<Rightarrow>
                        triggerCallback s2 (Some \<lparr>sock_id = sk, sock_backend = Some b\<rparr>) None
                    | _ \<Rightarrow> scanFrom connect connectTimeout ob list s2)))"
  by pat_completeness auto
termination
  by (relation "measure (\<lambda>(connect, connectTimeout, ob, list, s). length list + 1 - scanPos s)")
     auto

text \<open>
  The recursive equations are used one instance at a time.
\<close>

declare normalizeLoop.simps [simp del]
declare normalizeBackendHostObjectArray.simps [simp del]
declare leadingDigit.simps [simp del]
declare bitLength.simps [simp del]
declare recursiveScan.simps [simp del]
declare scanFrom.simps [simp del]

subsection \<open>A connector that may call back more than once\<close>

text \<open>
  Nothing in the module makes \<^verbatim>\<open>netSocketConnect\<close> call its callback once only, and the
  test of \<^verbatim>\<open>triggerCallback\<close> is there for the time it does not. This second model of the
  scan covers that: \<open>connect i port host timeout\<close> lists every answer the connector gives
  to the attempt on index \<open>i\<close>, none, one or several. Each answer is a call of the
  callback of line 140, which waits in \<open>q\<close> with the backend its closure holds until the
  event loop runs it; \<open>pick\<close> chooses which of the waiting calls runs next, so the
  answers are handled in any order. The scan list is the scan's own copy, read here as a
  value. With one answer to each attempt this model is the first one
  (\<open>scanAndConnectPending_once\<close> below).
\<close>

type_synonym answer = "nat option \<times> string option"
type_synonym pending = "ref \<times> answer"
type_synonym answering = "nat \<Rightarrow> int \<Rightarrow> jsval \<Rightarrow> jsval \<Rightarrow> answer list"

text \<open>
  \<^verbatim>\<open>recursiveScan()\<close> up to its return: it completes the scan, or it calls
  \<^verbatim>\<open>netSocketConnect\<close>, whose answers join the waiting calls.
\<close>

function recursiveScanPending ::
  "answering \<Rightarrow> jsval \<Rightarrow> (ref \<Rightarrow> backend) \<Rightarrow> jsarray \<Rightarrow> scan \<Rightarrow> pending list \<Rightarrow> scan \<times> pending list" where
  "recursiveScanPending connect connectTimeout ob list s q =
     (if scanPos s > length list then
        (triggerCallback s None (Some (UnableToConnect (scanPos s))), q)
      else
        (let pos = scanPos s;
             backend = (case js_index list pos of None \<Rightarrow> None | Some x \<Rightarrow> x);
             s1 = s\<lparr>scanPos := pos + 1\<rparr>
         in case backend of
              None \<Rightarrow> recursiveScanPending connect connectTimeout ob list s1 q
            | Some b \<Rightarrow>
                (s1\<lparr>attempts := attempts s1 @ [b]\<rparr>,
                 q @ map (Pair b) (connect pos (port (ob b)) (host (ob b)) connectTimeout))))"
  by pat_completeness auto
termination
  by (relation "measure (\<lambda>(connect, connectTimeout, ob, list, s, q). length list + 1 - scanPos s)")
     auto

declare recursiveScanPending.simps [simp del]

text \<open>
  The event loop runs the waiting calls one by one: the callback of line 140 completes
  the scan on a socket without error and calls \<^verbatim>\<open>recursiveScan()\<close> otherwise.
\<close>

function eventLoop ::
  "answering \<Rightarrow> jsval \<Rightarrow> (ref \<Rightarrow> backend) \<Rightarrow> jsarray \<Rightarrow> (pending list \<Rightarrow> nat) \<Rightarrow> scan \<Rightarrow> pending list \<Rightarrow> scan" where
  "eventLoop connect connectTimeout ob list pick s q =
     (if q = [] then s
      else
        (let i = pick q mod length q;
             (backend, answer) = q ! i;
             q' = take i q @ drop (i + 1) q
         in case answer of
              (Some sk, None) \<Rightarrow>
                eventLoop connect connectTimeout ob list pick
                  (triggerCallback s (Some \<lparr>sock_id = sk, sock_backend = Some backend\<rparr>) None) q'
            | _ \<Rightarrow>
                (let r = recursiveScanPending connect connectTimeout ob list s q'
                 in eventLoop connect connectTimeout ob list pick (fst r) (snd r))))"
  by pat_completeness auto
termination
proof -
  have pos: "scanPos (triggerCallback s a b) = scanPos s" for s a b
    by (simp add: triggerCallback_def)
  have step: "(if scanPos s > length list then scanPos s' = scanPos s \<and> q' = q
               else scanPos s < scanPos s')"
    if "recursiveScanPending connect t ob list s q = (s', q')" for connect t ob list s q s' q'
    using that
  proof (induction connect t ob list s q rule: recursiveScanPending.induct)
    case (1 connect t ob list s q)
    show ?case
    proof (cases "scanPos s > length list")
      case True
      with "1.prems" show ?thesis
        by (auto simp: recursiveScanPending.simps [of connect t ob list s q] pos)
    next
      case False
      show ?thesis
      proof (cases "case js_index list (scanPos s) of None \<Rightarrow> None | Some x \<Rightarrow> x")
        case None
        with False "1.prems"
        have r: "recursiveScanPending connect t ob list (s\<lparr>scanPos := scanPos s + 1\<rparr>) q = (s', q')"
          by (simp add: recursiveScanPending.simps [of connect t ob list s q] Let_def)
        from "1.IH" [OF False refl refl refl None r] False show ?thesis
          by (auto split: if_splits)
      next
        case (Some b)
        with False "1.prems" show ?thesis
          by (auto simp: recursiveScanPending.simps [of connect t ob list s q] Let_def)
      qed
    qed
  qed
  have rem: "length (take (pick q mod length q) q @ drop (Suc (pick q mod length q)) q) < length q"
    if "q \<noteq> []" for q :: "pending list" and pick
  proof -
    from that have "pick q mod length q < length q" by simp
    then show ?thesis by simp
  qed
  show ?thesis
  proof (relation "measures [\<lambda>(connect, connectTimeout, ob, list, pick, s, q). length list + 1 - scanPos s,
                               \<lambda>(connect, connectTimeout, ob, list, pick, s, q). length q]", goal_cases)
    case 1
    show ?case by simp
  next
    case (2 connect connectTimeout ob list pick s q)
    let ?q' = "take (pick q mod length q) q @ drop (Suc (pick q mod length q)) q"
    obtain s' q'' where r: "recursiveScanPending connect connectTimeout ob list s ?q' = (s', q'')"
      by (cases "recursiveScanPending connect connectTimeout ob list s ?q'")
    from step [OF r] rem [of q pick] 2 show ?case
      by (auto simp: r pos split: if_splits)
  next
    case (3 connect connectTimeout ob list pick s q)
    let ?q' = "take (pick q mod length q) q @ drop (Suc (pick q mod length q)) q"
    obtain s' q'' where r: "recursiveScanPending connect connectTimeout ob list s ?q' = (s', q'')"
      by (cases "recursiveScanPending connect connectTimeout ob list s ?q'")
    from step [OF r] rem [of q pick] 3 show ?case
      by (auto simp: r pos split: if_splits)
  next
    case (4 connect connectTimeout ob list pick s q)
    let ?q' = "take (pick q mod length q) q @ drop (Suc (pick q mod length q)) q"
    obtain s' q'' where r: "recursiveScanPending connect connectTimeout ob list s ?q' = (s', q'')"
      by (cases "recursiveScanPending connect connectTimeout ob list s ?q'")
    from step [OF r] rem [of q pick] 4 show ?case
      by (auto simp: r pos split: if_splits)
  qed
qed

declare eventLoop.simps [simp del]

text \<open>
  \<^verbatim>\<open>scanAndConnectToValidBackend\<close> with such a connector: the first \<^verbatim>\<open>recursiveScan()\<close>,
  then the event loop until no call waits.
\<close>

definition scanAndConnectPending ::
  "answering \<Rightarrow> (pending list \<Rightarrow> nat) \<Rightarrow> state \<Rightarrow> aref \<Rightarrow> bool \<Rightarrow> jsval \<Rightarrow> scan" where
  "scanAndConnectPending connect pick w backendArr cb connectTimeout =
     (let s0 = \<lparr>scanList = backendArr, scanPos = 0, callback = cb, attempts = [],
                delivered = []\<rparr>
      in case array_at w backendArr of
           None \<Rightarrow> s0
         | Some list \<Rightarrow>
             (let copy = js_slice list 0 (int (length list));
                  (w1, a) = alloc_arr w copy;
                  r = recursiveScanPending connect (defaultTimeout connectTimeout) (objs w) copy
                        (s0\<lparr>scanList := a\<rparr>) []
              in eventLoop connect (defaultTimeout connectTimeout) (objs w) copy pick
                   (fst r) (snd r)))"

text \<open>
  The calls of the caller's function that a scan has made, and one more while its
  \<^verbatim>\<open>callback\<close> variable still holds the function.
\<close>

definition budget :: "scan \<Rightarrow> nat" where
  "budget s = length (delivered s) + (if callback s then 1 else 0)"

section \<open>Example states\<close>

text \<open>
  A proxy holding three backends at the addresses 0, 1 and 2; the object at address 3 has
  the host and port of the object at address 1 and is not in the list.
\<close>

definition exampleObjs :: "ref \<Rightarrow> backend" where
  "exampleObjs r =
     (if r = 0 then \<lparr>host = JStr ''a'', port = 80\<rparr>
      else if r = 2 then \<lparr>host = JStr ''c'', port = 80\<rparr>
      else \<lparr>host = JStr ''b'', port = 80\<rparr>)"

definition exampleState :: state where
  "exampleState =
     \<lparr>objs = exampleObjs, next_ref = 4, arrs = [[Some 0, Some 1, Some 2]],
      p_host = JNull, p_port = Some 3128, p_backendList = 0, p_log = False,
      p_shuffle = False, p_connectTimeout = JNum (Some 2500), p_server = False,
      listening = False\<rparr>"

text \<open>Two backend objects are equal by value when their hosts and their ports are.\<close>

definition valueEqual :: "state \<Rightarrow> ref \<Rightarrow> ref \<Rightarrow> bool" where
  "valueEqual w r t = (host (objs w r) = host (objs w t) \<and> port (objs w r) = port (objs w t))"

text \<open>The state before the constructor has run, and an options object.\<close>

definition emptyState :: state where
  "emptyState =
     \<lparr>objs = (\<lambda>r. \<lparr>host = JUndefined, port = 0\<rparr>), next_ref = 0, arrs = [],
      p_host = JUndefined, p_port = None, p_backendList = 0, p_log = False,
      p_shuffle = False, p_connectTimeout = JUndefined, p_server = False,
      listening = False\<rparr>"

definition exampleOpt :: opt where
  "exampleOpt =
     \<lparr>opt_port = Some 3128, opt_host = JUndefined,
      opt_backend = Many [Prim (JStr ''a:80''), Prim (JStr ''b:80'')],
      opt_log = JBool False, opt_shuffle = JUndefined, opt_connectTimeout = JNum (Some 0)\<rparr>"

text \<open>
  Two connectors: one that refuses every attempt, and one that refuses the attempt on
  index 0 and connects every other.
\<close>

definition allDown :: connector where
  "allDown i p h t = (None, Some ''ECONNREFUSED'')"

definition firstDown :: connector where
  "firstDown i p h t = (if i = 0 then (None, Some ''ECONNREFUSED'') else (Some i, None))"

text \<open>A connector that refuses every attempt and then reports its timeout as well.\<close>

definition twiceDown :: answering where
  "twiceDown i p h t = [(None, Some ''ECONNREFUSED''), (None, Some ''ETIMEDOUT'')]"

section \<open>Normalization\<close>

lemmas norm_defs = normalizeBackendHostObject_def coerced_def clone_def fromString_def js_index_def
      parseInt_def parseInt_str_def isWhiteSpace_def isRadixDigit_def digitValue_def digitsValue_def
      toDouble_def
      lengthLE0_def isValidPort_def

text \<open>
  C8: \<^verbatim>\<open>normalize("host:80")\<close> is the backend with host \<^verbatim>\<open>"host"\<close> and port 80;
  \<^verbatim>\<open>normalize({host:"a", port:"80"})\<close> has the integer port 80; and normalization throws
  whenever the coerced host is the empty string, the host is \<^verbatim>\<open>null\<close> or missing, or
  the coerced port is 0 or at least 65536.
\<close>

theorem normalize_examples_and_failures:
  "normalizeBackendHostObject (Prim (JStr ''host:80'')) = Inr \<lparr>host = JStr ''host'', port = 80\<rparr>
   \<and> normalizeBackendHostObject (Obj (JStr ''a'') (JStr ''80'')) = Inr \<lparr>host = JStr ''a'', port = 80\<rparr>
   \<and> (\<forall>s h p. coerced s = Inr (h, p) \<and> (h = JStr '''' \<or> p = Some 0 \<or> (\<exists>n. p = Some n \<and> 65536 \<le> n))
        \<longrightarrow> normalizeBackendHostObject s = Inl MissingHost
            \<or> normalizeBackendHostObject s = Inl (InvalidBackendPort h p))
   \<and> (\<forall>h p. nullish h \<longrightarrow> normalizeBackendHostObject (Obj h p) = Inl MissingHost)"
proof (intro conjI allI impI)
  show "normalizeBackendHostObject (Prim (JStr ''host:80'')) = Inr \<lparr>host = JStr ''host'', port = 80\<rparr>"
    by (simp add: norm_defs)
  show "normalizeBackendHostObject (Obj (JStr ''a'') (JStr ''80'')) = Inr \<lparr>host = JStr ''a'', port = 80\<rparr>"
    by (simp add: norm_defs)
next
  fix s h p
  assume "coerced s = Inr (h, p) \<and> (h = JStr '''' \<or> p = Some 0 \<or> (\<exists>n. p = Some n \<and> 65536 \<le> n))"
  then show "normalizeBackendHostObject s = Inl MissingHost
            \<or> normalizeBackendHostObject s = Inl (InvalidBackendPort h p)"
    by (auto simp: normalizeBackendHostObject_def lengthLE0_def isValidPort_def)
next
  fix h p
  assume "nullish h"
  then show "normalizeBackendHostObject (Obj h p) = Inl MissingHost"
    by (simp add: normalizeBackendHostObject_def coerced_def fromString_def clone_def lengthLE0_def)
qed

theorem normalize_examples_and_failures_witness:
  "coerced (Prim (JStr ''a:65536'')) = Inr (JStr ''a'', Some 65536)
   \<and> normalizeBackendHostObject (Prim (JStr ''a:65536'')) = Inl (InvalidBackendPort (JStr ''a'') (Some 65536))
   \<and> nullish JUndefined
   \<and> normalizeBackendHostObject (Obj JUndefined (JNum (Some 80))) = Inl MissingHost"
proof -
  have c: "coerced (Prim (JStr ''a:65536'')) = Inr (JStr ''a'', Some 65536)"
    by (simp add: norm_defs)
  have "normalizeBackendHostObject (Prim (JStr ''a:65536'')) = Inl MissingHost
      \<or> normalizeBackendHostObject (Prim (JStr ''a:65536'')) = Inl (InvalidBackendPort (JStr ''a'') (Some 65536))"
    using normalize_examples_and_failures c by blast
  moreover have "normalizeBackendHostObject (Prim (JStr ''a:65536'')) \<noteq> Inl MissingHost"
    by (simp add: norm_defs)
  moreover have "normalizeBackendHostObject (Obj JUndefined (JNum (Some 80))) = Inl MissingHost"
    using normalize_examples_and_failures by simp
  ultimately show ?thesis using c by simp
qed

lemma normalizeLoop_last_invalid:
  assumes "i \<le> k" "k < length xs" "normalizeBackendHostObject (xs ! i) = Inl e"
    "\<forall>j. i < j \<and> j \<le> k \<longrightarrow> (\<exists>b. normalizeBackendHostObject (xs ! j) = Inr b)"
  shows "normalizeLoop xs (int k) ret = Inl e"
  using assms
proof (induction "k - i" arbitrary: k ret)
  case 0
  then have "k = i" by simp
  with 0 show ?case by (subst normalizeLoop.simps) (simp add: js_index_def)
next
  case (Suc d)
  then have ki: "i < k" by simp
  with Suc.prems obtain b where b: "normalizeBackendHostObject (xs ! k) = Inr b" by blast
  have eq: "int k - 1 = int (k - 1)" using ki by simp
  have "normalizeLoop xs (int (k - 1)) (array_set ret k b) = Inl e"
    using Suc.hyps(2) Suc.prems ki by (intro Suc.hyps(1)) auto
  then have rec: "normalizeLoop xs (int k - 1) (array_set ret k b) = Inl e"
    by (simp only: eq)
  from Suc.prems(2) have "js_index xs k = Some (xs ! k)" by (simp add: js_index_def)
  with b rec show ?case
    by (subst normalizeLoop.simps) simp
qed

text \<open>
  C2, as the code has it: the loop runs from the last index down, so a non-empty array
  with an invalid element fails with the error of its last invalid element, which is the
  error that normalizing that element alone gives.
\<close>

theorem normalizeAll_last_invalid:
  assumes "i < length xs"
    and "normalizeBackendHostObject (xs ! i) = Inl e"
    and "\<forall>j. i < j \<and> j < length xs \<longrightarrow> (\<exists>b. normalizeBackendHostObject (xs ! j) = Inr b)"
  shows "normalizeBackendHostObjectArray (Many xs) = Inl e"
proof -
  from assms(1) have ne: "\<not> missingOrEmpty (Many xs)" by (auto simp: missingOrEmpty_def)
  have eq: "int (length xs) - 1 = int (length xs - 1)" using assms(1) by simp
  have "normalizeLoop xs (int (length xs - 1)) [] = Inl e"
    using assms by (intro normalizeLoop_last_invalid [where i = i]) auto
  then have "normalizeLoop xs (int (length xs) - 1) [] = Inl e"
    by (simp only: eq)
  with ne show ?thesis by (simp add: normalizeBackendHostObjectArray.simps)
qed

theorem normalizeAll_last_invalid_witness:
  "normalizeBackendHostObjectArray
     (Many [Obj (JStr '''') (JNum (Some 80)), Obj (JStr ''a'') (JNum (Some 0)), Prim (JStr ''b:80'')])
   = Inl (InvalidBackendPort (JStr ''a'') (Some 0))"
proof -
  let ?xs = "[Obj (JStr '''') (JNum (Some 80)), Obj (JStr ''a'') (JNum (Some 0)), Prim (JStr ''b:80'')]"
  have 1: "(1::nat) < length ?xs" by simp
  have 2: "normalizeBackendHostObject (?xs ! 1) = Inl (InvalidBackendPort (JStr ''a'') (Some 0))"
    by (simp add: norm_defs)
  have 3: "\<forall>j. 1 < j \<and> j < length ?xs \<longrightarrow> (\<exists>b. normalizeBackendHostObject (?xs ! j) = Inr b)"
  proof (intro allI impI)
    fix j assume "1 < j \<and> j < length ?xs"
    then have "j = 2" by simp
    then show "\<exists>b. normalizeBackendHostObject (?xs ! j) = Inr b" by (simp add: norm_defs)
  qed
  show ?thesis by (rule normalizeAll_last_invalid [OF 1 2 3])
qed

text \<open>
  C2 as stated fails: the first invalid element of this array has no host, and the array
  is refused for the port of its second element.
\<close>

theorem normalizeAll_first_invalid_counterexample:
  "normalizeBackendHostObject (Obj (JStr '''') (JNum (Some 80))) = Inl MissingHost
   \<and> normalizeBackendHostObjectArray
       (Many [Obj (JStr '''') (JNum (Some 80)), Obj (JStr ''a'') (JNum (Some 0))])
     = Inl (InvalidBackendPort (JStr ''a'') (Some 0))"
  by (simp add: norm_defs missingOrEmpty_def array_set_def normalizeLoop.simps normalizeBackendHostObjectArray.simps)

section \<open>Options\<close>

text \<open>
  C10: when the constructor's \<^verbatim>\<open>_processOptObject\<close> succeeds on options whose
  \<^verbatim>\<open>connectTimeout\<close> is absent or falsy (0 among them), the stored timeout is 2500.
\<close>

theorem connectTimeout_default:
  assumes "processOptObject this opt = Inr this'"
    and "\<not> truthy (opt_connectTimeout opt)"
  shows "p_connectTimeout this' = JNum (Some 2500)"
  using assms
  by (auto simp: processOptObject_def Let_def alloc_arr_def split: if_splits sum.splits prod.splits)

theorem connectTimeout_default_witness:
  "\<exists>this'. processOptObject emptyState exampleOpt = Inr this'
     \<and> opt_connectTimeout exampleOpt = JNum (Some 0)
     \<and> p_connectTimeout this' = JNum (Some 2500)"
proof -
  have "\<exists>this'. processOptObject emptyState exampleOpt = Inr this'"
    by (simp add: processOptObject_def exampleOpt_def emptyState_def norm_defs missingOrEmpty_def
        array_set_def normalizeLoop.simps normalizeBackendHostObjectArray.simps alloc_arr_def Let_def)
  then obtain this' where 1: "processOptObject emptyState exampleOpt = Inr this'" ..
  have 2: "\<not> truthy (opt_connectTimeout exampleOpt)" by (simp add: exampleOpt_def)
  from connectTimeout_default [OF 1 2] 1 show ?thesis by (simp add: exampleOpt_def)
qed

section \<open>Close\<close>

text \<open>
  C4 fails on the code: on a proxy whose server is running, with no global named
  \<^verbatim>\<open>callback\<close>, \<^verbatim>\<open>close()\<close> raises a ReferenceError before \<^verbatim>\<open>server.close\<close> is called.
\<close>

theorem close_raises:
  "p_server (serverSetup exampleState) \<and> listening (serverSetup exampleState)
   \<and> close (\<lambda>name. None) (serverSetup exampleState) = Inl (ReferenceError ''callback'')"
  by (simp add: close_def serverSetup_def)

section \<open>Rotation\<close>

lemma indexOf_takeWhile:
  "indexOf xs t = (if Some t \<in> set xs then int (length (takeWhile (\<lambda>x. x \<noteq> Some t) xs)) else - 1)"
  by (induction xs) (auto simp: Let_def)

lemma takeWhile_absent:
  "y \<notin> set xs \<Longrightarrow> dropWhile (\<lambda>x. x \<noteq> y) xs @ takeWhile (\<lambda>x. x \<noteq> y) xs = xs"
proof -
  assume "y \<notin> set xs"
  then have "takeWhile (\<lambda>x. x \<noteq> y) xs = xs \<and> dropWhile (\<lambda>x. x \<noteq> y) xs = []"
    by (induction xs) auto
  then show ?thesis by (simp only: append_Nil)
qed

lemma takeWhile_first:
  "y \<notin> set pre \<Longrightarrow> takeWhile (\<lambda>x. x \<noteq> y) (pre @ y # post) = pre
     \<and> dropWhile (\<lambda>x. x \<noteq> y) (pre @ y # post) = y # post"
  by (induction pre) auto

lemma js_slice_take: "0 \<le> k \<Longrightarrow> js_slice xs 0 k = take (nat k) xs"
  by (auto simp: js_slice_def Let_def min_def)

lemma js_slice_drop: "0 \<le> k \<Longrightarrow> js_slice xs k (int (length xs)) = drop (nat k) xs"
  by (auto simp: js_slice_def Let_def min_def)

lemma currentList_rotate:
  "currentList (rotateBackendList w t) =
     dropWhile (\<lambda>x. x \<noteq> Some t) (currentList w) @ takeWhile (\<lambda>x. x \<noteq> Some t) (currentList w)"
proof (cases "array_at w (p_backendList w)")
  case None
  then show ?thesis by (simp add: rotateBackendList_def currentList_def)
next
  case (Some list)
  show ?thesis
  proof (cases "indexOf list t \<le> 0")
    case True
    then have "takeWhile (\<lambda>x. x \<noteq> Some t) list = [] \<or> Some t \<notin> set list"
      by (auto simp: indexOf_takeWhile split: if_splits)
    then have "dropWhile (\<lambda>x. x \<noteq> Some t) list @ takeWhile (\<lambda>x. x \<noteq> Some t) list = list"
    proof
      assume e: "takeWhile (\<lambda>x. x \<noteq> Some t) list = []"
      have "takeWhile (\<lambda>x. x \<noteq> Some t) list @ dropWhile (\<lambda>x. x \<noteq> Some t) list = list"
        by (rule takeWhile_dropWhile_id)
      with e show ?thesis by simp
    next
      assume "Some t \<notin> set list"
      then show ?thesis by (rule takeWhile_absent)
    qed
    with True Some show ?thesis by (simp add: rotateBackendList_def currentList_def)
  next
    case False
    then have mem: "Some t \<in> set list"
      and idx: "indexOf list t = int (length (takeWhile (\<lambda>x. x \<noteq> Some t) list))"
      by (auto simp: indexOf_takeWhile split: if_splits)
    let ?n = "length (takeWhile (\<lambda>x. x \<noteq> Some t) list)"
    have t: "take ?n list = takeWhile (\<lambda>x. x \<noteq> Some t) list"
      by (rule takeWhile_eq_take [symmetric])
    have d: "drop ?n list = dropWhile (\<lambda>x. x \<noteq> Some t) list"
      by (rule dropWhile_eq_drop [symmetric])
    from False Some idx t d show ?thesis
      by (simp add: rotateBackendList_def currentList_def Let_def alloc_arr_def array_at_def
          js_slice_take js_slice_drop nth_append)
  qed
qed

lemma arrs_rotate: "take (length (arrs w)) (arrs (rotateBackendList w t)) = arrs w"
  by (simp add: rotateBackendList_def Let_def alloc_arr_def split: option.splits)

lemma objs_rotate: "objs (rotateBackendList w t) = objs w"
  by (simp add: rotateBackendList_def Let_def alloc_arr_def split: option.splits)

text \<open>
  C3, as the code has it: the target is looked up by object identity. When no entry is
  the target object, or the target is the first entry, the list stays as it is; when the
  first occurrence of the target follows the entries \<open>pre\<close> and is followed by
  \<open>post\<close>, the list becomes the target, \<open>post\<close>, then \<open>pre\<close>.
\<close>

theorem rotate_by_identity:
  "(Some t \<notin> set (currentList w) \<longrightarrow> currentList (rotateBackendList w t) = currentList w)
   \<and> (\<forall>post. currentList w = Some t # post \<longrightarrow> currentList (rotateBackendList w t) = currentList w)
   \<and> (\<forall>pre post. currentList w = pre @ Some t # post \<and> Some t \<notin> set pre
        \<longrightarrow> currentList (rotateBackendList w t) = (Some t # post) @ pre)"
proof (intro conjI allI impI)
  assume "Some t \<notin> set (currentList w)"
  then have "dropWhile (\<lambda>x. x \<noteq> Some t) (currentList w) @ takeWhile (\<lambda>x. x \<noteq> Some t) (currentList w)
      = currentList w"
    by (rule takeWhile_absent)
  then show "currentList (rotateBackendList w t) = currentList w"
    by (simp only: currentList_rotate)
next
  fix post assume "currentList w = Some t # post"
  then show "currentList (rotateBackendList w t) = currentList w"
    by (simp add: currentList_rotate)
next
  fix pre post
  assume a: "currentList w = pre @ Some t # post \<and> Some t \<notin> set pre"
  then have "takeWhile (\<lambda>x. x \<noteq> Some t) (currentList w) = pre"
    and "dropWhile (\<lambda>x. x \<noteq> Some t) (currentList w) = Some t # post"
    using takeWhile_first [of "Some t" pre post] by auto
  then show "currentList (rotateBackendList w t) = (Some t # post) @ pre"
    by (simp only: currentList_rotate)
qed

theorem rotate_by_identity_witness:
  "currentList exampleState = [Some 0] @ Some 1 # [Some 2] \<and> Some 1 \<notin> set [Some (0::nat)]
   \<and> currentList (rotateBackendList exampleState 1) = [Some 1, Some 2, Some 0]
   \<and> Some 3 \<notin> set (currentList exampleState)
   \<and> currentList (rotateBackendList exampleState 3) = currentList exampleState"
proof -
  have c: "currentList exampleState = [Some 0] @ Some 1 # [Some 2]"
    by (simp add: currentList_def exampleState_def array_at_def)
  have n: "Some 1 \<notin> set [Some (0::nat)]" by simp
  have m: "Some 3 \<notin> set (currentList exampleState)"
    by (simp add: currentList_def exampleState_def array_at_def)
  from rotate_by_identity [of 1 exampleState] c n
  have "currentList (rotateBackendList exampleState 1) = (Some 1 # [Some 2]) @ [Some 0]"
    by blast
  moreover from rotate_by_identity [of 3 exampleState] m
  have "currentList (rotateBackendList exampleState 3) = currentList exampleState"
    by blast
  ultimately show ?thesis using c n m by simp
qed

text \<open>
  C3 as stated fails: the object at address 3 is equal by value to the second entry and
  to no earlier one, and rotating to it leaves the list as it was.
\<close>

theorem rotate_value_equal_copy_counterexample:
  "valueEqual exampleState 1 3 \<and> \<not> valueEqual exampleState 0 3
   \<and> currentList exampleState = [Some 0, Some 1, Some 2]
   \<and> currentList (rotateBackendList exampleState 3) \<noteq> [Some 1, Some 2, Some 0]"
  by (simp add: valueEqual_def currentList_def rotateBackendList_def exampleState_def exampleObjs_def
      array_at_def Let_def)

text \<open>
  C6: the rotated list is a permutation of the list before, of the same length, and the
  arrays that existed before the rotation are still there with their contents: the
  rotation writes new arrays only.
\<close>

theorem rotate_permutation_copy:
  "mset (currentList (rotateBackendList w t)) = mset (currentList w)
   \<and> length (currentList (rotateBackendList w t)) = length (currentList w)
   \<and> take (length (arrs w)) (arrs (rotateBackendList w t)) = arrs w"
proof -
  have "mset (dropWhile (\<lambda>x. x \<noteq> Some t) (currentList w) @ takeWhile (\<lambda>x. x \<noteq> Some t) (currentList w))
      = mset (takeWhile (\<lambda>x. x \<noteq> Some t) (currentList w) @ dropWhile (\<lambda>x. x \<noteq> Some t) (currentList w))"
    by (simp only: mset_append add.commute)
  then have m: "mset (currentList (rotateBackendList w t)) = mset (currentList w)"
    by (simp only: currentList_rotate takeWhile_dropWhile_id)
  from m have "size (mset (currentList (rotateBackendList w t))) = size (mset (currentList w))"
    by simp
  then have "length (currentList (rotateBackendList w t)) = length (currentList w)"
    by (simp only: size_mset)
  with m arrs_rotate show ?thesis by blast
qed

theorem rotate_permutation_copy_witness:
  "currentList (rotateBackendList exampleState 1) = [Some 1, Some 2, Some 0]
   \<and> p_backendList (rotateBackendList exampleState 1) \<noteq> p_backendList exampleState
   \<and> array_at (rotateBackendList exampleState 1) (p_backendList exampleState) = Some [Some 0, Some 1, Some 2]
   \<and> mset (currentList (rotateBackendList exampleState 1)) = mset [Some 0, Some 1, Some 2]"
proof -
  have c: "currentList exampleState = [Some 0, Some 1, Some 2]"
    by (simp add: currentList_def exampleState_def array_at_def)
  have r: "currentList (rotateBackendList exampleState 1) = [Some 1, Some 2, Some 0]"
    by (simp add: currentList_def rotateBackendList_def exampleState_def array_at_def Let_def
        alloc_arr_def js_slice_def)
  have p: "p_backendList (rotateBackendList exampleState 1) \<noteq> p_backendList exampleState"
    by (simp add: rotateBackendList_def exampleState_def array_at_def Let_def alloc_arr_def)
  have "take (length (arrs exampleState)) (arrs (rotateBackendList exampleState 1)) = arrs exampleState"
    using rotate_permutation_copy [of exampleState 1] by blast
  then have a: "array_at (rotateBackendList exampleState 1) (p_backendList exampleState) = Some [Some 0, Some 1, Some 2]"
    by (simp add: exampleState_def array_at_def rotateBackendList_def Let_def alloc_arr_def)
  from rotate_permutation_copy [of exampleState 1] c r p a show ?thesis by simp
qed

section \<open>Scanning\<close>

text \<open>
  A rotation leaves every array that exists where it is, and the backend objects too, so
  a scan reads the same scan list however many rotations run in between: the scan is the
  function \<open>scanFrom\<close> of the list it copied when it began.
\<close>

lemma array_at_valid: "array_at w a = Some list \<Longrightarrow> a < length (arrs w)"
  by (simp add: array_at_def split: if_splits)

lemma array_at_rotate:
  "a < length (arrs w) \<Longrightarrow> array_at (rotateBackendList w t) a = array_at w a"
  by (auto simp: rotateBackendList_def array_at_def alloc_arr_def Let_def nth_append
      split: option.splits)

lemma arrs_rotate_grow: "length (arrs w) \<le> length (arrs (rotateBackendList w t))"
  by (auto simp: rotateBackendList_def alloc_arr_def Let_def split: option.splits)

lemma rotations_frame:
  "a < length (arrs w) \<Longrightarrow> array_at (rotations w ts) a = array_at w a"
  unfolding rotations_def
proof (induction ts arbitrary: w)
  case Nil
  then show ?case by simp
next
  case (Cons t ts)
  from Cons.prems arrs_rotate_grow [of w t]
  have "a < length (arrs (rotateBackendList w t))" by simp
  from Cons.IH [OF this] array_at_rotate [OF Cons.prems, of t] show ?case by simp
qed

lemma objs_rotations: "objs (rotations w ts) = objs w"
  unfolding rotations_def
  by (induction ts arbitrary: w) (simp_all add: objs_rotate)

lemma recursiveScan_scanFrom:
  "array_at w (scanList s) = Some list \<Longrightarrow>
   snd (recursiveScan connect t sched w s) = scanFrom connect t (objs w) list s"
proof (induction connect t sched w s rule: recursiveScan.induct)
  case (1 connect t sched w s)
  note valid = array_at_valid [OF "1.prems"]
  have fr: "array_at (rotations w ts) (scanList s) = Some list" for ts
    using rotations_frame [OF valid] "1.prems" by simp
  show ?case
  proof (cases "scanPos s > length list")
    case True
    with "1.prems" show ?thesis
      by (simp add: recursiveScan.simps [of connect t sched w s] scanFrom.simps [of connect t "objs w" list s])
  next
    case False
    show ?thesis
    proof (cases "case js_index list (scanPos s) of None \<Rightarrow> None | Some x \<Rightarrow> x")
      case None
      from "1.IH"(1) [OF "1.prems" False refl refl refl None] "1.prems"
      have "snd (recursiveScan connect t sched w (s\<lparr>scanPos := scanPos s + 1\<rparr>))
          = scanFrom connect t (objs w) list (s\<lparr>scanPos := scanPos s + 1\<rparr>)"
        by simp
      with "1.prems" False None show ?thesis
        by (simp add: recursiveScan.simps [of connect t sched w s]
            scanFrom.simps [of connect t "objs w" list s] Let_def)
    next
      case (Some b)
      let ?s2 = "s\<lparr>scanPos := scanPos s + 1, attempts := attempts s @ [b]\<rparr>"
      let ?w' = "rotations w (sched (scanPos s))"
      let ?r = "connect (scanPos s) (port (objs w b)) (host (objs w b)) t"
      show ?thesis
      proof (cases "\<exists>sk. ?r = (Some sk, None)")
        case True
        then obtain sk where "?r = (Some sk, None)" ..
        with "1.prems" False Some show ?thesis
          by (simp add: recursiveScan.simps [of connect t sched w s]
              scanFrom.simps [of connect t "objs w" list s] Let_def)
      next
        case F2: False
        obtain a y where r: "(a, y) = ?r" by (cases ?r) simp
        have fr2: "array_at ?w' (scanList ?s2) = Some list" using fr by simp
        have "a = None \<or> (\<exists>sk e. a = Some sk \<and> y = Some e)"
          using F2 r [symmetric] by (cases a; cases y) auto
        then have "snd (recursiveScan connect t sched ?w' ?s2) = scanFrom connect t (objs ?w') list ?s2"
        proof
          assume "a = None"
          from "1.IH"(2) [OF "1.prems" False refl refl refl Some refl refl r this] fr2
          show ?thesis by simp
        next
          assume "\<exists>sk e. a = Some sk \<and> y = Some e"
          then obtain sk e where "a = Some sk" and "y = Some e" by blast
          from "1.IH"(3) [OF "1.prems" False refl refl refl Some refl refl r this] fr2
          show ?thesis by simp
        qed
        then have ih: "snd (recursiveScan connect t sched ?w' ?s2) = scanFrom connect t (objs w) list ?s2"
          by (simp only: objs_rotations)
        from F2 have c: "(case ?r of (Some sk, None) \<Rightarrow> A sk | (Some sk, Some e) \<Rightarrow> B | (None, e) \<Rightarrow> B) = B" for A B
          by (auto split: prod.splits option.splits)
        from "1.prems" False Some F2 ih show ?thesis
          apply (simp add: recursiveScan.simps [of connect t sched w s]
              scanFrom.simps [of connect t "objs w" list s] Let_def)
          apply (auto split: prod.splits option.splits)
          done
      qed
    qed
  qed
qed

lemma scanAndConnect_scanFrom:
  assumes "array_at w backendArr = Some list"
  shows "snd (scanAndConnectToValidBackend connect sched w backendArr cb t) =
     scanFrom connect (defaultTimeout t) (objs w) list
       \<lparr>scanList = length (arrs w), scanPos = 0, callback = cb, attempts = [], delivered = []\<rparr>"
proof -
  let ?w1 = "w\<lparr>arrs := arrs w @ [list]\<rparr>"
  let ?s = "\<lparr>scanList = length (arrs w), scanPos = 0, callback = cb, attempts = [], delivered = []\<rparr>"
  have "array_at ?w1 (scanList ?s) = Some list" by (simp add: array_at_def)
  from recursiveScan_scanFrom [OF this]
  have "snd (recursiveScan connect (defaultTimeout t) sched ?w1 ?s)
      = scanFrom connect (defaultTimeout t) (objs w) list ?s"
    by simp
  with assms show ?thesis
    by (simp add: scanAndConnectToValidBackend_def alloc_arr_def js_slice_def)
qed

lemma not_connected_case:
  "\<not> connected r \<Longrightarrow>
   (case r of (None, e) \<Rightarrow> B | (Some sk, None) \<Rightarrow> A sk | (Some sk, Some e) \<Rightarrow> B) = B"
  by (auto simp: connected_def split: prod.splits option.splits)

lemma scanFrom_past_end:
  "scanPos s = length list \<Longrightarrow>
   scanFrom connect t ob list s =
     triggerCallback (s\<lparr>scanPos := length list + 1\<rparr>) None (Some (UnableToConnect (length list + 1)))"
  by (simp add: scanFrom.simps [of connect t ob list s] js_index_def Let_def
      scanFrom.simps [of connect t ob list "s\<lparr>scanPos := Suc (length list)\<rparr>"])

lemma scanFrom_step_down:
  assumes "scanPos s < length bs"
    and "\<not> connected (connect (scanPos s) (port (ob (bs ! scanPos s))) (host (ob (bs ! scanPos s))) t)"
  shows "scanFrom connect t ob (map Some bs) s =
     scanFrom connect t ob (map Some bs)
       (s\<lparr>scanPos := scanPos s + 1, attempts := attempts s @ [bs ! scanPos s]\<rparr>)"
  using assms
  by (simp add: scanFrom.simps [of connect t ob "map Some bs" s] js_index_def Let_def
      not_connected_case)

lemma scanFrom_step_up:
  assumes "scanPos s < length bs"
    and "connect (scanPos s) (port (ob (bs ! scanPos s))) (host (ob (bs ! scanPos s))) t = (Some sk, None)"
  shows "scanFrom connect t ob (map Some bs) s =
     triggerCallback (s\<lparr>scanPos := scanPos s + 1, attempts := attempts s @ [bs ! scanPos s]\<rparr>)
       (Some \<lparr>sock_id = sk, sock_backend = Some (bs ! scanPos s)\<rparr>) None"
  using assms
  by (simp add: scanFrom.simps [of connect t ob "map Some bs" s] js_index_def Let_def)

lemma scanFrom_all_down:
  assumes "scanPos s \<le> length bs"
    and "\<forall>i. scanPos s \<le> i \<and> i < length bs \<longrightarrow>
           \<not> connected (connect i (port (ob (bs ! i))) (host (ob (bs ! i))) t)"
  shows "scanFrom connect t ob (map Some bs) s =
     triggerCallback (s\<lparr>scanPos := length bs + 1, attempts := attempts s @ drop (scanPos s) bs\<rparr>)
       None (Some (UnableToConnect (length bs + 1)))"
  using assms
proof (induction "length bs - scanPos s" arbitrary: s)
  case 0
  then have e: "scanPos s = length (map Some bs)" by simp
  from scanFrom_past_end [OF e, of connect t ob] e show ?case by simp
next
  case (Suc d)
  then have lt: "scanPos s < length bs" by simp
  let ?s2 = "s\<lparr>scanPos := scanPos s + 1, attempts := attempts s @ [bs ! scanPos s]\<rparr>"
  from Suc.prems(2) lt
  have down: "\<not> connected (connect (scanPos s) (port (ob (bs ! scanPos s))) (host (ob (bs ! scanPos s))) t)"
    by simp
  have "scanFrom connect t ob (map Some bs) ?s2 =
     triggerCallback (?s2\<lparr>scanPos := length bs + 1, attempts := attempts ?s2 @ drop (scanPos ?s2) bs\<rparr>)
       None (Some (UnableToConnect (length bs + 1)))"
    using Suc.hyps(2) Suc.prems lt by (intro Suc.hyps(1)) auto
  moreover have "attempts ?s2 @ drop (scanPos ?s2) bs = attempts s @ drop (scanPos s) bs"
    using lt by (simp add: Cons_nth_drop_Suc)
  ultimately show ?case
    using scanFrom_step_down [where s = s and bs = bs and connect = connect and ob = ob and t = t]
      lt down
    by simp
qed

lemma scanFrom_first_up:
  assumes "scanPos s \<le> k" and "k < length bs"
    and "connect k (port (ob (bs ! k))) (host (ob (bs ! k))) t = (Some sk, None)"
    and "\<forall>i. scanPos s \<le> i \<and> i < k \<longrightarrow>
           \<not> connected (connect i (port (ob (bs ! i))) (host (ob (bs ! i))) t)"
  shows "scanFrom connect t ob (map Some bs) s =
     triggerCallback
       (s\<lparr>scanPos := k + 1, attempts := attempts s @ take (k + 1 - scanPos s) (drop (scanPos s) bs)\<rparr>)
       (Some \<lparr>sock_id = sk, sock_backend = Some (bs ! k)\<rparr>) None"
  using assms
proof (induction "k - scanPos s" arbitrary: s)
  case 0
  then have e: "scanPos s = k" by simp
  with 0 have lt: "scanPos s < length bs" by simp
  from "0.prems"(3) e
  have up: "connect (scanPos s) (port (ob (bs ! scanPos s))) (host (ob (bs ! scanPos s))) t = (Some sk, None)"
    by simp
  have "take (k + 1 - scanPos s) (drop (scanPos s) bs) = [bs ! scanPos s]"
    using e lt by (simp add: take_Suc_conv_app_nth)
  with scanFrom_step_up [where s = s and bs = bs and connect = connect and ob = ob and t = t
      and sk = sk] lt up e
  show ?case by simp
next
  case (Suc d)
  then have lt: "scanPos s < k" by simp
  with Suc.prems have lt': "scanPos s < length bs" by simp
  let ?s2 = "s\<lparr>scanPos := scanPos s + 1, attempts := attempts s @ [bs ! scanPos s]\<rparr>"
  from Suc.prems(4) lt
  have down: "\<not> connected (connect (scanPos s) (port (ob (bs ! scanPos s))) (host (ob (bs ! scanPos s))) t)"
    by simp
  have "scanFrom connect t ob (map Some bs) ?s2 =
     triggerCallback
       (?s2\<lparr>scanPos := k + 1, attempts := attempts ?s2 @ take (k + 1 - scanPos ?s2) (drop (scanPos ?s2) bs)\<rparr>)
       (Some \<lparr>sock_id = sk, sock_backend = Some (bs ! k)\<rparr>) None"
    using Suc.hyps(2) Suc.prems lt by (intro Suc.hyps(1)) auto
  moreover have "attempts ?s2 @ take (k + 1 - scanPos ?s2) (drop (scanPos ?s2) bs)
      = attempts s @ take (k + 1 - scanPos s) (drop (scanPos s) bs)"
  proof -
    have "drop (scanPos s) bs = bs ! scanPos s # drop (Suc (scanPos s)) bs"
      using lt' by (simp add: Cons_nth_drop_Suc)
    moreover have "k + 1 - scanPos s = Suc (k - scanPos s)" using lt by simp
    ultimately show ?thesis by simp
  qed
  ultimately show ?case
    using scanFrom_step_down [where s = s and bs = bs and connect = connect and ob = ob and t = t]
      lt' down
    by simp
qed

text \<open>
  When every attempt on a list of \<open>N\<close> backends fails, the scan tries each backend
  once, in list order, and reports \<open>N + 1\<close> tries: the test of line 124 is
  \<^verbatim>\<open>scanPos > scanList.length\<close>, so the scan reads one place past the end, skips the
  \<^verbatim>\<open>undefined\<close> it finds there and counts it.
\<close>

lemma scan_all_down:
  assumes "array_at w backendArr = Some (map Some bs)"
    and "\<forall>i<length bs. \<not> connected (connect i (port (objs w (bs ! i))) (host (objs w (bs ! i)))
           (defaultTimeout t))"
  shows "attempts (snd (scanAndConnectToValidBackend connect sched w backendArr True t)) = bs
    \<and> delivered (snd (scanAndConnectToValidBackend connect sched w backendArr True t))
        = [(None, Some (UnableToConnect (length bs + 1)))]"
proof -
  let ?s = "\<lparr>scanList = length (arrs w), scanPos = 0, callback = True, attempts = [], delivered = []\<rparr>"
  have "scanFrom connect (defaultTimeout t) (objs w) (map Some bs) ?s =
     triggerCallback (?s\<lparr>scanPos := length bs + 1, attempts := attempts ?s @ drop (scanPos ?s) bs\<rparr>)
       None (Some (UnableToConnect (length bs + 1)))"
    using assms(2) by (intro scanFrom_all_down) auto
  then show ?thesis
    by (simp add: scanAndConnect_scanFrom [OF assms(1)] triggerCallback_def)
qed

text \<open>
  C1 fails on the code: with the three backends of the example all down, the scan tries
  0, 1 and 2 in this order and then reports 4 tries, not 3.
\<close>

theorem scan_all_down_reports_four:
  "array_at exampleState 0 = Some [Some 0, Some 1, Some 2]
   \<and> attempts (snd (scanAndConnectToValidBackend allDown (\<lambda>i. []) exampleState 0 True JUndefined))
       = [0, 1, 2]
   \<and> delivered (snd (scanAndConnectToValidBackend allDown (\<lambda>i. []) exampleState 0 True JUndefined))
       = [(None, Some (UnableToConnect 4))]"
proof -
  have a: "array_at exampleState 0 = Some (map Some [0, 1, 2])"
    by (simp add: array_at_def exampleState_def)
  have d: "\<forall>i<length [0, 1, 2 :: nat]. \<not> connected (allDown i (port (objs exampleState ([0, 1, 2] ! i)))
      (host (objs exampleState ([0, 1, 2] ! i))) (defaultTimeout JUndefined))"
    by (simp add: allDown_def connected_def)
  from scan_all_down [where w = exampleState and backendArr = 0 and bs = "[0, 1, 2]"
      and connect = allDown and t = JUndefined and sched = "\<lambda>i. []", OF a d] a
  show ?thesis by simp
qed

text \<open>
  C5: when the candidate at index \<open>k\<close> is the first that connects, the scan makes
  exactly \<open>k + 1\<close> attempts, on the first \<open>k + 1\<close> candidates in list order and on no
  later one, and hands the caller the socket of that connection, tagged with that
  candidate.
\<close>

theorem scan_first_reachable:
  assumes "array_at w backendArr = Some (map Some bs)"
    and "k < length bs"
    and "connect k (port (objs w (bs ! k))) (host (objs w (bs ! k))) (defaultTimeout t) = (Some sk, None)"
    and "\<forall>i<k. \<not> connected (connect i (port (objs w (bs ! i))) (host (objs w (bs ! i)))
           (defaultTimeout t))"
  shows "attempts (snd (scanAndConnectToValidBackend connect sched w backendArr True t)) = take (k + 1) bs
    \<and> length (attempts (snd (scanAndConnectToValidBackend connect sched w backendArr True t))) = k + 1
    \<and> delivered (snd (scanAndConnectToValidBackend connect sched w backendArr True t))
        = [(Some \<lparr>sock_id = sk, sock_backend = Some (bs ! k)\<rparr>, None)]"
proof -
  let ?s = "\<lparr>scanList = length (arrs w), scanPos = 0, callback = True, attempts = [], delivered = []\<rparr>"
  have "scanFrom connect (defaultTimeout t) (objs w) (map Some bs) ?s =
     triggerCallback
       (?s\<lparr>scanPos := k + 1, attempts := attempts ?s @ take (k + 1 - scanPos ?s) (drop (scanPos ?s) bs)\<rparr>)
       (Some \<lparr>sock_id = sk, sock_backend = Some (bs ! k)\<rparr>) None"
    using assms(2,3,4) by (intro scanFrom_first_up) auto
  with assms(2) show ?thesis
    by (simp add: scanAndConnect_scanFrom [OF assms(1)] triggerCallback_def)
qed

theorem scan_first_reachable_witness:
  "attempts (snd (scanAndConnectToValidBackend firstDown (\<lambda>i. []) exampleState 0 True JUndefined))
       = [0, 1]
   \<and> delivered (snd (scanAndConnectToValidBackend firstDown (\<lambda>i. []) exampleState 0 True JUndefined))
       = [(Some \<lparr>sock_id = 1, sock_backend = Some 1\<rparr>, None)]"
proof -
  have a: "array_at exampleState 0 = Some (map Some [0, 1, 2])"
    by (simp add: array_at_def exampleState_def)
  have k: "(1::nat) < length [0, 1, 2 :: nat]" by simp
  have u: "firstDown 1 (port (objs exampleState ([0, 1, 2] ! 1))) (host (objs exampleState ([0, 1, 2] ! 1)))
      (defaultTimeout JUndefined) = (Some 1, None)"
    by (simp add: firstDown_def)
  have d: "\<forall>i<1. \<not> connected (firstDown i (port (objs exampleState ([0, 1, 2] ! i)))
      (host (objs exampleState ([0, 1, 2] ! i))) (defaultTimeout JUndefined))"
    by (simp add: firstDown_def connected_def)
  from scan_first_reachable [where w = exampleState and backendArr = 0 and bs = "[0, 1, 2]"
      and connect = firstDown and t = JUndefined and sched = "\<lambda>i. []" and k = 1 and sk = 1,
      OF a k u d]
  show ?thesis by simp
qed

text \<open>
  C9: the rotations that run while a scan is in flight change nothing of the scan: its
  attempts, their order and what it delivers are those of the run with no rotation.
\<close>

theorem scan_ignores_rotations:
  "snd (scanAndConnectToValidBackend connect sched w backendArr cb t)
   = snd (scanAndConnectToValidBackend connect (\<lambda>i. []) w backendArr cb t)"
proof (cases "array_at w backendArr")
  case None
  then show ?thesis by (simp add: scanAndConnectToValidBackend_def)
next
  case (Some list)
  then show ?thesis by (simp only: scanAndConnect_scanFrom [OF Some])
qed

theorem scan_ignores_rotations_witness:
  "currentList (fst (scanAndConnectToValidBackend allDown (\<lambda>i. if i = 0 then [1] else []) exampleState 0
      True JUndefined)) = [Some 1, Some 2, Some 0]
   \<and> currentList (fst (scanAndConnectToValidBackend allDown (\<lambda>i. []) exampleState 0
      True JUndefined)) = [Some 0, Some 1, Some 2]
   \<and> attempts (snd (scanAndConnectToValidBackend allDown (\<lambda>i. if i = 0 then [1] else []) exampleState 0
      True JUndefined)) = [0, 1, 2]"
proof -
  have a: "array_at exampleState 0 = Some (map Some [0, 1, 2])"
    by (simp add: array_at_def exampleState_def)
  have d: "\<forall>i<length [0, 1, 2 :: nat]. \<not> connected (allDown i (port (objs exampleState ([0, 1, 2] ! i)))
      (host (objs exampleState ([0, 1, 2] ! i))) (defaultTimeout JUndefined))"
    by (simp add: allDown_def connected_def)
  have 1: "attempts (snd (scanAndConnectToValidBackend allDown (\<lambda>i. []) exampleState 0 True JUndefined))
      = [0, 1, 2]"
    using scan_all_down [where w = exampleState and backendArr = 0 and bs = "[0, 1, 2]"
      and connect = allDown and t = JUndefined and sched = "\<lambda>i. []", OF a d]
    by simp
  have 2: "currentList (fst (scanAndConnectToValidBackend allDown (\<lambda>i. if i = 0 then [1] else [])
      exampleState 0 True JUndefined)) = [Some 1, Some 2, Some 0]"
    by (simp add: scanAndConnectToValidBackend_def exampleState_def array_at_def alloc_arr_def
        js_slice_def recursiveScan.simps js_index_def Let_def allDown_def rotations_def
        rotateBackendList_def currentList_def triggerCallback_def defaultTimeout_def)
  have 3: "currentList (fst (scanAndConnectToValidBackend allDown (\<lambda>i. [])
      exampleState 0 True JUndefined)) = [Some 0, Some 1, Some 2]"
    by (simp add: scanAndConnectToValidBackend_def exampleState_def array_at_def alloc_arr_def
        js_slice_def recursiveScan.simps js_index_def Let_def allDown_def rotations_def
        rotateBackendList_def currentList_def triggerCallback_def defaultTimeout_def)
  from scan_ignores_rotations [of allDown "\<lambda>i. if i = 0 then [1] else []" exampleState 0 True JUndefined]
    1 2 3
  show ?thesis by simp
qed

section \<open>Completion of a scan\<close>

lemma budget_triggerCallback: "budget (triggerCallback s sock err) = budget s"
  by (simp add: budget_def triggerCallback_def)

lemma callback_triggerCallback: "\<not> callback (triggerCallback s sock err)"
  by (simp add: triggerCallback_def)

lemma budget_recursiveScanPending:
  "budget (fst (recursiveScanPending connect t ob list s q)) = budget s"
proof (induction connect t ob list s q rule: recursiveScanPending.induct)
  case (1 connect t ob list s q)
  show ?case
  proof (cases "scanPos s > length list")
    case True
    then show ?thesis
      by (simp add: recursiveScanPending.simps [of connect t ob list s q] budget_triggerCallback)
  next
    case False
    show ?thesis
    proof (cases "case js_index list (scanPos s) of None \<Rightarrow> None | Some x \<Rightarrow> x")
      case None
      from "1.IH" [OF False refl refl refl None] False None show ?thesis
        by (simp add: recursiveScanPending.simps [of connect t ob list s q] Let_def budget_def)
    next
      case (Some b)
      with False show ?thesis
        by (simp add: recursiveScanPending.simps [of connect t ob list s q] Let_def budget_def)
    qed
  qed
qed

lemma pending_recursiveScanPending:
  assumes "\<forall>i p h tm. connect i p h tm \<noteq> []"
  shows "callback (fst (recursiveScanPending connect t ob list s q))
    \<Longrightarrow> snd (recursiveScanPending connect t ob list s q) \<noteq> []"
  using assms
proof (induction connect t ob list s q rule: recursiveScanPending.induct)
  case (1 connect t ob list s q)
  show ?case
  proof (cases "scanPos s > length list")
    case True
    with "1.prems"(1) show ?thesis
      by (simp add: recursiveScanPending.simps [of connect t ob list s q] callback_triggerCallback)
  next
    case False
    show ?thesis
    proof (cases "case js_index list (scanPos s) of None \<Rightarrow> None | Some x \<Rightarrow> x")
      case None
      with False "1.prems"(1)
      have "callback (fst (recursiveScanPending connect t ob list (s\<lparr>scanPos := scanPos s + 1\<rparr>) q))"
        by (simp add: recursiveScanPending.simps [of connect t ob list s q] Let_def)
      from "1.IH" [OF False refl refl refl None this "1.prems"(2)] False None show ?thesis
        by (simp add: recursiveScanPending.simps [of connect t ob list s q] Let_def)
    next
      case (Some b)
      with False "1.prems"(2) show ?thesis
        by (simp add: recursiveScanPending.simps [of connect t ob list s q] Let_def)
    qed
  qed
qed

lemma eventLoop_induct [case_names empty up down]:
  assumes empty: "\<And>s. P s []"
    and up: "\<And>s q b sk. q \<noteq> [] \<Longrightarrow> q ! (pick q mod length q) = (b, Some sk, None) \<Longrightarrow>
        eventLoop connect t ob list pick s q =
          eventLoop connect t ob list pick
            (triggerCallback s (Some \<lparr>sock_id = sk, sock_backend = Some b\<rparr>) None)
            (take (pick q mod length q) q @ drop (pick q mod length q + 1) q) \<Longrightarrow>
        P (triggerCallback s (Some \<lparr>sock_id = sk, sock_backend = Some b\<rparr>) None)
          (take (pick q mod length q) q @ drop (pick q mod length q + 1) q) \<Longrightarrow>
        P s q"
    and down: "\<And>s q. q \<noteq> [] \<Longrightarrow> \<not> connected (snd (q ! (pick q mod length q))) \<Longrightarrow>
        eventLoop connect t ob list pick s q =
          eventLoop connect t ob list pick
            (fst (recursiveScanPending connect t ob list s
                   (take (pick q mod length q) q @ drop (pick q mod length q + 1) q)))
            (snd (recursiveScanPending connect t ob list s
                   (take (pick q mod length q) q @ drop (pick q mod length q + 1) q))) \<Longrightarrow>
        P (fst (recursiveScanPending connect t ob list s
                 (take (pick q mod length q) q @ drop (pick q mod length q + 1) q)))
          (snd (recursiveScanPending connect t ob list s
                 (take (pick q mod length q) q @ drop (pick q mod length q + 1) q))) \<Longrightarrow>
        P s q"
  shows "P s q"
  using assms
proof (induction connect t ob list pick s q rule: eventLoop.induct)
  case (1 connect t ob list pick s q)
  show ?case
  proof (cases "q = []")
    case True
    then show ?thesis by (simp add: "1.prems"(1))
  next
    case ne: False
    let ?i = "pick q mod length q"
    let ?q' = "take ?i q @ drop (?i + 1) q"
    obtain b a y where e: "(b, (a, y)) = q ! ?i" by (cases "q ! ?i") auto
    have unfold: "eventLoop connect t ob list pick s q =
        (case (a, y) of
           (Some sk, None) \<Rightarrow> eventLoop connect t ob list pick
              (triggerCallback s (Some \<lparr>sock_id = sk, sock_backend = Some b\<rparr>) None) ?q'
         | _ \<Rightarrow> eventLoop connect t ob list pick
              (fst (recursiveScanPending connect t ob list s ?q'))
              (snd (recursiveScanPending connect t ob list s ?q')))"
      using ne e [symmetric]
      by (simp add: eventLoop.simps [of connect t ob list pick s q] Let_def split: option.splits)
    consider (u) sk where "a = Some sk" "y = None" | (d1) "a = None"
      | (d2) sk err where "a = Some sk" "y = Some err"
      by (cases a; cases y) auto
    then show ?thesis
    proof cases
      case u
      from "1.IH"(2) [OF ne refl refl e refl refl u "1.prems"]
      have p: "P (triggerCallback s (Some \<lparr>sock_id = sk, sock_backend = Some b\<rparr>) None) ?q'" .
      from unfold u have eq: "eventLoop connect t ob list pick s q =
          eventLoop connect t ob list pick
            (triggerCallback s (Some \<lparr>sock_id = sk, sock_backend = Some b\<rparr>) None) ?q'"
        by simp
      from e u have at: "q ! ?i = (b, Some sk, None)" by simp
      show ?thesis by (rule "1.prems"(2) [OF ne at eq p])
    next
      case d1
      from "1.IH"(1) [OF ne refl refl e refl refl d1 refl "1.prems"]
      have p: "P (fst (recursiveScanPending connect t ob list s ?q'))
              (snd (recursiveScanPending connect t ob list s ?q'))" .
      from unfold d1 have eq: "eventLoop connect t ob list pick s q =
          eventLoop connect t ob list pick
            (fst (recursiveScanPending connect t ob list s ?q'))
            (snd (recursiveScanPending connect t ob list s ?q'))"
        by simp
      from e [symmetric] d1 have at: "\<not> connected (snd (q ! ?i))"
        by (simp add: connected_def)
      show ?thesis by (rule "1.prems"(3) [OF ne at eq p])
    next
      case d2
      from "1.IH"(3) [OF ne refl refl e refl refl d2 refl "1.prems"]
      have p: "P (fst (recursiveScanPending connect t ob list s ?q'))
              (snd (recursiveScanPending connect t ob list s ?q'))" .
      from unfold d2 have eq: "eventLoop connect t ob list pick s q =
          eventLoop connect t ob list pick
            (fst (recursiveScanPending connect t ob list s ?q'))
            (snd (recursiveScanPending connect t ob list s ?q'))"
        by simp
      from e [symmetric] d2 have at: "\<not> connected (snd (q ! ?i))"
        by (simp add: connected_def)
      show ?thesis by (rule "1.prems"(3) [OF ne at eq p])
    qed
  qed
qed

lemma budget_eventLoop: "budget (eventLoop connect t ob list pick s q) = budget s"
proof (induction s q rule: eventLoop_induct [where connect = connect and t = t and ob = ob
      and list = list and pick = pick])
  case (empty s)
  show ?case by (simp add: eventLoop.simps [of connect t ob list pick s "[]"])
next
  case (up s q b sk)
  then show ?case by (simp add: budget_triggerCallback)
next
  case (down s q)
  then show ?case by (simp add: budget_recursiveScanPending)
qed

lemma eventLoop_completes:
  assumes "\<forall>i p h tm. connect i p h tm \<noteq> []"
  shows "(callback s \<longrightarrow> q \<noteq> []) \<Longrightarrow> \<not> callback (eventLoop connect t ob list pick s q)"
proof (induction s q rule: eventLoop_induct [where connect = connect and t = t and ob = ob
      and list = list and pick = pick])
  case (empty s)
  then show ?case by (simp add: eventLoop.simps [of connect t ob list pick s "[]"])
next
  case (up s q b sk)
  then show ?case by (simp add: callback_triggerCallback)
next
  case (down s q)
  from pending_recursiveScanPending [OF assms] down show ?case by simp
qed

lemma eventLoop_Nil: "eventLoop connect t ob list pick s [] = s"
  by (simp add: eventLoop.simps [of connect t ob list pick s "[]"])

lemma eventLoop_single:
  "eventLoop connect t ob list pick s [(b, r)] =
     (case r of
        (Some sk, None) \<Rightarrow> triggerCallback s (Some \<lparr>sock_id = sk, sock_backend = Some b\<rparr>) None
      | _ \<Rightarrow> eventLoop connect t ob list pick
               (fst (recursiveScanPending connect t ob list s []))
               (snd (recursiveScanPending connect t ob list s [])))"
  by (simp add: eventLoop.simps [of connect t ob list pick s "[(b, r)]"] eventLoop_Nil Let_def
      split: prod.splits option.splits)

lemma eventLoop_once:
  "eventLoop (\<lambda>i p h tm. [connect i p h tm]) t ob list pick
     (fst (recursiveScanPending (\<lambda>i p h tm. [connect i p h tm]) t ob list s []))
     (snd (recursiveScanPending (\<lambda>i p h tm. [connect i p h tm]) t ob list s []))
   = scanFrom connect t ob list s"
proof (induction connect t ob list s rule: scanFrom.induct)
  case (1 connect t ob list s)
  let ?c = "\<lambda>i p h tm. [connect i p h tm]"
  show ?case
  proof (cases "scanPos s > length list")
    case True
    then show ?thesis
      by (simp add: recursiveScanPending.simps [of ?c t ob list s "[]"]
          scanFrom.simps [of connect t ob list s] eventLoop_Nil)
  next
    case False
    show ?thesis
    proof (cases "case js_index list (scanPos s) of None \<Rightarrow> None | Some x \<Rightarrow> x")
      case None
      from "1.IH"(1) [OF False refl refl refl None] False None show ?thesis
        by (simp add: recursiveScanPending.simps [of ?c t ob list s "[]"]
            scanFrom.simps [of connect t ob list s] Let_def)
    next
      case (Some b)
      let ?s2 = "s\<lparr>scanPos := scanPos s + 1, attempts := attempts s @ [b]\<rparr>"
      let ?r = "connect (scanPos s) (port (ob b)) (host (ob b)) t"
      have start: "recursiveScanPending ?c t ob list s [] = (?s2, [(b, ?r)])"
        using False Some
        by (simp add: recursiveScanPending.simps [of ?c t ob list s "[]"] Let_def)
      obtain a y where r: "(a, y) = ?r" by (cases ?r) simp
      consider (up) sk where "a = Some sk" "y = None" | (down1) "a = None"
        | (down2) sk e where "a = Some sk" "y = Some e"
        by (cases a; cases y) auto
      then show ?thesis
      proof cases
        case up
        with r [symmetric] False Some start show ?thesis
          by (simp add: scanFrom.simps [of connect t ob list s] Let_def eventLoop_single)
      next
        case down1
        from "1.IH"(2) [OF False refl refl refl Some refl r down1]
        have "eventLoop ?c t ob list pick (fst (recursiveScanPending ?c t ob list ?s2 []))
            (snd (recursiveScanPending ?c t ob list ?s2 [])) = scanFrom connect t ob list ?s2"
          by simp
        with r [symmetric] False Some start down1 show ?thesis
          by (simp add: scanFrom.simps [of connect t ob list s] Let_def eventLoop_single)
      next
        case down2
        from "1.IH"(3) [OF False refl refl refl Some refl r down2]
        have "eventLoop ?c t ob list pick (fst (recursiveScanPending ?c t ob list ?s2 []))
            (snd (recursiveScanPending ?c t ob list ?s2 [])) = scanFrom connect t ob list ?s2"
          by simp
        with r [symmetric] False Some start down2 show ?thesis
          by (simp add: scanFrom.simps [of connect t ob list s] Let_def eventLoop_single)
      qed
    qed
  qed
qed

text \<open>
  When the connector answers each attempt once, the scan with waiting calls is the scan
  of the first model, whatever rotations run there.
\<close>

lemma scanAndConnectPending_once:
  "scanAndConnectPending (\<lambda>i p h tm. [connect i p h tm]) pick w backendArr cb t
   = snd (scanAndConnectToValidBackend connect sched w backendArr cb t)"
proof (cases "array_at w backendArr")
  case None
  then show ?thesis
    by (simp add: scanAndConnectPending_def scanAndConnectToValidBackend_def)
next
  case (Some list)
  have "js_slice list 0 (int (length list)) = list" by (simp add: js_slice_def)
  with Some show ?thesis
    by (simp add: scanAndConnectPending_def alloc_arr_def Let_def eventLoop_once
        scanAndConnect_scanFrom [OF Some])
qed

text \<open>
  C7: a scan that was given a callback calls it at most once, however many answers the
  connector gives to an attempt and in whatever order they are handled, and exactly once
  when the connector answers every attempt.
\<close>

theorem scan_completes_once:
  assumes "array_at w backendArr = Some list"
  shows "length (delivered (scanAndConnectPending connect pick w backendArr True t)) \<le> 1
    \<and> ((\<forall>i p h tm. connect i p h tm \<noteq> []) \<longrightarrow>
         length (delivered (scanAndConnectPending connect pick w backendArr True t)) = 1)"
proof -
  let ?copy = "js_slice list 0 (int (length list))"
  let ?s0 = "\<lparr>scanList = length (arrs w), scanPos = 0, callback = True, attempts = [],
      delivered = []\<rparr>"
  let ?r = "recursiveScanPending connect (defaultTimeout t) (objs w) ?copy ?s0 []"
  let ?end = "eventLoop connect (defaultTimeout t) (objs w) ?copy pick (fst ?r) (snd ?r)"
  have run: "scanAndConnectPending connect pick w backendArr True t = ?end"
    using assms by (simp add: scanAndConnectPending_def alloc_arr_def Let_def)
  have "budget ?end = budget ?s0"
    by (simp only: budget_eventLoop budget_recursiveScanPending)
  then have b: "length (delivered ?end) + (if callback ?end then 1 else 0) = 1"
    by (simp add: budget_def)
  then have le: "length (delivered ?end) \<le> 1" by (simp split: if_splits)
  have "length (delivered ?end) = 1" if all: "\<forall>i p h tm. connect i p h tm \<noteq> []"
  proof -
    have "callback (fst ?r) \<longrightarrow> snd ?r \<noteq> []"
      using pending_recursiveScanPending [OF all] by blast
    from eventLoop_completes [OF all this] have "\<not> callback ?end" .
    with b show ?thesis by simp
  qed
  with le run show ?thesis by simp
qed

theorem scan_completes_once_witness:
  "array_at exampleState 0 = Some [Some 0, Some 1, Some 2]
   \<and> twiceDown 0 80 (JStr ''a'') (JNum (Some 5000)) = [(None, Some ''ECONNREFUSED''), (None, Some ''ETIMEDOUT'')]
   \<and> length (delivered (scanAndConnectPending twiceDown (\<lambda>q. 0) exampleState 0 True JUndefined)) = 1"
proof -
  have a: "array_at exampleState 0 = Some [Some 0, Some 1, Some 2]"
    by (simp add: array_at_def exampleState_def)
  have n: "\<forall>i p h tm. twiceDown i p h tm \<noteq> []" by (simp add: twiceDown_def)
  from scan_completes_once [where connect = twiceDown and pick = "\<lambda>q. 0" and t = JUndefined, OF a] n a
  show ?thesis by (simp add: twiceDown_def)
qed

text \<open>
  With two refusals for each attempt on the three backends of the example, four of the
  six answers end in \<^verbatim>\<open>triggerCallback\<close>; the caller is called once.
\<close>

lemma twiceDown_run:
  "attempts (scanAndConnectPending twiceDown (\<lambda>q. 0) exampleState 0 True JUndefined) = [0, 1, 2]
   \<and> delivered (scanAndConnectPending twiceDown (\<lambda>q. 0) exampleState 0 True JUndefined)
       = [(None, Some (UnableToConnect 4))]"
  by (simp add: scanAndConnectPending_def exampleState_def array_at_def alloc_arr_def js_slice_def
      Let_def recursiveScanPending.simps eventLoop.simps js_index_def twiceDown_def
      triggerCallback_def defaultTimeout_def)

end
